theory Spec2Isabelle
  imports Complex_Main "HOL-Library.Char_ord" "HOL-Library.List_Lexorder"
begin

section \<open>Python exceptions as values\<close>

text \<open>
  Every exception the modelled code can raise is a value of this type; a function that
  can raise returns \<open>py_error + 'a\<close>, with \<open>Inl\<close> for the exception.
\<close>

datatype py_error = IndexError | ZeroDivisionError | ValueError | RequestException | HTTPError

section \<open>Prime generation (data_fetch.py)\<close>

subsection \<open>The numpy operations the sieve uses\<close>

text \<open>
  A numpy boolean array is a \<open>bool list\<close>. \<^verbatim>\<open>np.ones(n, dtype=bool)\<close> is the array of
  \<open>n\<close> entries \<open>True\<close>.
\<close>

definition np_ones :: "nat \<Rightarrow> bool list" where
  "np_ones n = replicate n True"

text \<open>
  \<^verbatim>\<open>a[:stop] = False\<close>: the entries at the indices below \<open>stop\<close> become \<open>False\<close>; the
  slice is clipped to the array, so nothing is raised when \<open>stop\<close> exceeds the length.
\<close>

definition clear_prefix :: "bool list \<Rightarrow> nat \<Rightarrow> bool list" where
  "clear_prefix a stop = map (\<lambda>j. if j < stop then False else a ! j) [0..<length a]"

text \<open>
  \<^verbatim>\<open>a[start::step] = False\<close> with a positive step: the entries at the indices
  \<open>start, start + step, start + 2 * step, ...\<close> below the length become \<open>False\<close>; an
  empty slice (\<open>start\<close> beyond the end) changes nothing.
\<close>

definition clear_slice :: "bool list \<Rightarrow> nat \<Rightarrow> nat \<Rightarrow> bool list" where
  "clear_slice a start step =
     map (\<lambda>j. if start \<le> j \<and> (j - start) mod step = 0 then False else a ! j) [0..<length a]"

text \<open>\<^verbatim>\<open>np.where(a)[0]\<close>: the indices of the entries that are \<open>True\<close>, ascending.\<close>

definition np_where :: "bool list \<Rightarrow> nat list" where
  "np_where a = filter (\<lambda>j. a ! j) [0..<length a]"

text \<open>
  \<^verbatim>\<open>int(limit**0.5)\<close>: the integer part of the square root. The model computes it
  exactly on the naturals (the source goes through a double, which agrees with the exact
  value for every limit whose sieve array fits in memory).
\<close>

fun floor_sqrt :: "nat \<Rightarrow> nat" where
  "floor_sqrt n =
     (if n = 0 then 0
      else (let r = 2 * floor_sqrt (n div 4)
            in if (r + 1) * (r + 1) \<le> n then r + 1 else r))"

declare floor_sqrt.simps [simp del]

subsection \<open>sieve_of_eratosthenes\<close>

text \<open>
  The loop \<^verbatim>\<open>for i in range(3, stop, 2): if sieve[i]: sieve[i*i::i] = False\<close>, with the
  array threaded through. Reading \<^verbatim>\<open>sieve[i]\<close> beyond the array raises IndexError.
\<close>

function sieve_loop :: "nat \<Rightarrow> nat \<Rightarrow> bool list \<Rightarrow> py_error + bool list" where
  "sieve_loop i stop sieve =
     (if i < stop then
        (if i < length sieve then
           sieve_loop (i + 2) stop (if sieve ! i then clear_slice sieve (i * i) i else sieve)
         else Inl IndexError)
      else Inr sieve)"
  by pat_completeness auto
termination
  by (relation "measure (\<lambda>(i, stop, sieve). stop - i)") auto

declare sieve_loop.simps [simp del]

definition sieve_of_eratosthenes :: "int \<Rightarrow> py_error + int list" where
  "sieve_of_eratosthenes limit =
     (if limit < 2 then Inr []
      else (let n = nat limit;
                sieve = clear_slice (clear_prefix (np_ones (n + 1)) 2) 4 2
            in case sieve_loop 3 (floor_sqrt n + 1) sieve of
                 Inl e \<Rightarrow> Inl e
               | Inr s \<Rightarrow> Inr (map int (np_where s))))"

text \<open>
  Primality, as the property the sieve is checked against: a number above 1 with no
  divisor strictly between 1 and itself.
\<close>

definition is_prime :: "nat \<Rightarrow> bool" where
  "is_prime n \<longleftrightarrow> 1 < n \<and> (\<forall>d\<in>{2..<n}. \<not> d dvd n)"

text \<open>
  The loop invariant of the sieve. \<open>no_small_divisor k j\<close>: \<open>j\<close> is at least 2 and no
  \<open>d\<close> with \<open>2 \<le> d < k\<close> and \<open>d * d \<le> j\<close> divides it. \<open>sieve_inv k n s\<close>: the array
  has \<open>n + 1\<close> entries and entry \<open>j\<close> says whether \<open>j\<close> has no small divisor below \<open>k\<close>.
\<close>

definition no_small_divisor :: "nat \<Rightarrow> nat \<Rightarrow> bool" where
  "no_small_divisor k j \<longleftrightarrow> 2 \<le> j \<and> (\<forall>d. 2 \<le> d \<and> d < k \<and> d * d \<le> j \<longrightarrow> \<not> d dvd j)"

definition sieve_inv :: "nat \<Rightarrow> nat \<Rightarrow> bool list \<Rightarrow> bool" where
  "sieve_inv k n s \<longleftrightarrow> length s = n + 1 \<and> (\<forall>j\<le>n. s ! j = no_small_divisor k j)"

subsection \<open>primes_in_progression\<close>

text \<open>
  \<^verbatim>\<open>[p for p in primes if p % q == a]\<close> over Python integers. The comprehension visits
  the list from the left; \<^verbatim>\<open>p % q\<close> raises ZeroDivisionError when \<open>q\<close> is 0, and is the
  floored remainder otherwise (its sign is the divisor's), which is \<open>mod\<close> on \<open>int\<close>.
\<close>

definition py_mod :: "int \<Rightarrow> int \<Rightarrow> py_error + int" where
  "py_mod p q = (if q = 0 then Inl ZeroDivisionError else Inr (p mod q))"

fun primes_in_progression :: "int list \<Rightarrow> int \<Rightarrow> int \<Rightarrow> py_error + int list" where
  "primes_in_progression [] a q = Inr []"
| "primes_in_progression (p # primes) a q =
     (case py_mod p q of
        Inl e \<Rightarrow> Inl e
      | Inr r \<Rightarrow>
          (case primes_in_progression primes a q of
             Inl e \<Rightarrow> Inl e
           | Inr rest \<Rightarrow> Inr (if r = a then p # rest else rest)))"

subsection \<open>normalize_gap\<close>

text \<open>
  Python floats are modelled as real numbers: rounding is left out, the exceptions are
  kept. \<^verbatim>\<open>math.log(x)\<close> raises ValueError unless \<open>x\<close> is positive, and \<^verbatim>\<open>x / y\<close>
  raises ZeroDivisionError when \<open>y\<close> is zero.
\<close>

definition math_log :: "real \<Rightarrow> py_error + real" where
  "math_log x = (if x \<le> 0 then Inl ValueError else Inr (ln x))"

definition py_truediv :: "real \<Rightarrow> real \<Rightarrow> py_error + real" where
  "py_truediv x y = (if y = 0 then Inl ZeroDivisionError else Inr (x / y))"

definition normalize_gap :: "int \<Rightarrow> real \<Rightarrow> py_error + real" where
  "normalize_gap gap p =
     (if p \<le> 1 then Inr 0
      else (case math_log p of
              Inl e \<Rightarrow> Inl e
            | Inr l \<Rightarrow> py_truediv (real_of_int gap) (l ^ 2)))"

text \<open>The formula of the last line alone, without the guard on \<open>p\<close>.\<close>

definition normalize_gap_unguarded :: "int \<Rightarrow> real \<Rightarrow> py_error + real" where
  "normalize_gap_unguarded gap p =
     (case math_log p of
        Inl e \<Rightarrow> Inl e
      | Inr l \<Rightarrow> py_truediv (real_of_int gap) (l ^ 2))"

section \<open>Sequence provider (data_fetch.py)\<close>

subsection \<open>The string operations the parser uses\<close>

text \<open>
  The response text is modelled as a \<open>string\<close> of ASCII characters, which is what the
  archive's b-files hold. \<open>py_isspace\<close> is the ASCII part of what \<^verbatim>\<open>str.strip()\<close> and
  \<^verbatim>\<open>str.split()\<close> treat as whitespace.
\<close>

definition py_isspace :: "char \<Rightarrow> bool" where
  "py_isspace c \<longleftrightarrow>
     c \<in> set [CHR 0x09, CHR 0x0A, CHR 0x0B, CHR 0x0C, CHR 0x0D,
              CHR 0x1C, CHR 0x1D, CHR 0x1E, CHR 0x1F, CHR 0x20]"

text \<open>\<^verbatim>\<open>s.strip()\<close>: leading and trailing whitespace removed.\<close>

definition py_strip :: "string \<Rightarrow> string" where
  "py_strip s = rev (dropWhile py_isspace (rev (dropWhile py_isspace s)))"

text \<open>
  \<^verbatim>\<open>s.split(sep)\<close> for a one-character separator: the pieces between the separators,
  empty pieces included; the empty string gives one empty piece.
\<close>

fun split_on :: "char \<Rightarrow> string \<Rightarrow> string list" where
  "split_on sep [] = [[]]"
| "split_on sep (c # cs) =
     (if c = sep then [] # split_on sep cs
      else (case split_on sep cs of
              [] \<Rightarrow> [[c]]
            | w # ws \<Rightarrow> (c # w) # ws))"

text \<open>
  \<^verbatim>\<open>s.split()\<close>: the maximal runs of non-whitespace characters, in order. The first
  argument is the run being read.
\<close>

fun split_ws_from :: "string \<Rightarrow> string \<Rightarrow> string list" where
  "split_ws_from w [] = (if w = [] then [] else [w])"
| "split_ws_from w (c # cs) =
     (if py_isspace c then (if w = [] then split_ws_from [] cs else w # split_ws_from [] cs)
      else split_ws_from (w @ [c]) cs)"

definition py_split :: "string \<Rightarrow> string list" where
  "py_split s = split_ws_from [] s"

text \<open>\<^verbatim>\<open>line.startswith('#')\<close>.\<close>

definition startswith_hash :: "string \<Rightarrow> bool" where
  "startswith_hash line = (case line of [] \<Rightarrow> False | c # _ \<Rightarrow> c = CHR ''#'')"

text \<open>
  \<^verbatim>\<open>int(s)\<close> on an ASCII string: surrounding whitespace is dropped, then an optional
  sign, then decimal digits, where single underscores may stand between digits; anything
  else raises ValueError. (The interpreter's limit on the number of digits is left out.)
\<close>

definition is_digit :: "char \<Rightarrow> bool" where
  "is_digit c \<longleftrightarrow> c \<in> set ''0123456789''"

definition digit_value :: "char \<Rightarrow> int" where
  "digit_value c = int (of_char c) - 48"

fun valid_digits :: "string \<Rightarrow> bool" where
  "valid_digits [] = False"
| "valid_digits [c] = is_digit c"
| "valid_digits (c # d # cs) =
     (is_digit c \<and> (if d = CHR ''_'' then valid_digits cs else valid_digits (d # cs)))"

definition digits_value :: "string \<Rightarrow> int" where
  "digits_value ds = foldl (\<lambda>acc c. 10 * acc + digit_value c) 0 (filter is_digit ds)"

definition py_int :: "string \<Rightarrow> py_error + int" where
  "py_int s =
     (case py_strip s of
        [] \<Rightarrow> Inl ValueError
      | c # r \<Rightarrow>
          (let body = (if c = CHR ''+'' \<or> c = CHR ''-'' then r else c # r)
           in if valid_digits body
              then Inr ((if c = CHR ''-'' then - 1 else 1) * digits_value body)
              else Inl ValueError))"

subsection \<open>fetch_oeis_sequence and get_fallback_sequence\<close>

text \<open>
  What the network does is an input of the model: \<^verbatim>\<open>requests.get\<close> either raises
  (no connection, timeout) or returns a response with a status code and a text.
  \<^verbatim>\<open>raise_for_status()\<close> raises HTTPError for the status codes 400 to 599.
\<close>

datatype http_outcome = Request_failed | Response nat string

text \<open>
  The loop over the lines of the response, with \<open>data\<close> threaded through: comment lines
  and lines of fewer than two fields are skipped, a second field that is no integer is
  skipped (the inner \<^verbatim>\<open>except ValueError: continue\<close>), and the loop is left once
  \<open>data\<close> has reached \<open>max_terms\<close> entries, a test made after each append.
\<close>

fun read_terms :: "string list \<Rightarrow> int list \<Rightarrow> int \<Rightarrow> int list" where
  "read_terms [] data max_terms = data"
| "read_terms (line # rest) data max_terms =
     (if startswith_hash line then read_terms rest data max_terms
      else (let parts = py_split line
            in if 2 \<le> length parts then
                 (case py_int (py_strip (parts ! 1)) of
                    Inl e \<Rightarrow> read_terms rest data max_terms
                  | Inr val \<Rightarrow>
                      (let data' = data @ [val]
                       in if max_terms \<le> int (length data') then data'
                          else read_terms rest data' max_terms))
               else read_terms rest data max_terms))"

definition get_fallback_sequence :: "int \<Rightarrow> int \<Rightarrow> int list" where
  "get_fallback_sequence seq_id max_terms =
     (if seq_id = 5250 then
        [1, 2, 4, 6, 8, 14, 18, 20, 22, 34, 36, 44, 52, 72, 86, 96, 112, 114, 118, 132]
      else if seq_id = 101 then
        [2, 3, 7, 23, 89, 113, 523, 887, 1129, 1327, 9551, 15683, 19609, 31397, 155921]
      else [])"

text \<open>The body of the \<^verbatim>\<open>try\<close> block: the parsed terms, or the exception that leaves it.\<close>

definition fetch_try :: "http_outcome \<Rightarrow> int \<Rightarrow> py_error + int list" where
  "fetch_try net max_terms =
     (case net of
        Request_failed \<Rightarrow> Inl RequestException
      | Response status text \<Rightarrow>
          if 400 \<le> status \<and> status < 600 then Inl HTTPError
          else Inr (read_terms (split_on (CHR 0x0A) (py_strip text)) [] max_terms))"

text \<open>
  The whole function: \<^verbatim>\<open>except Exception\<close> catches whatever left the \<^verbatim>\<open>try\<close> block,
  prints a line (not modelled) and returns the fallback. No exception leaves the function,
  so its result is a plain list.
\<close>

definition fetch_oeis_sequence :: "http_outcome \<Rightarrow> int \<Rightarrow> int \<Rightarrow> int list" where
  "fetch_oeis_sequence net seq_id max_terms =
     (case fetch_try net max_terms of
        Inr data \<Rightarrow> data
      | Inl e \<Rightarrow> get_fallback_sequence seq_id max_terms)"

section \<open>Rebound detection\<close>

text \<open>
  Modelled from the spec: the data model of the analysis module, which is not among the
  sources. One gap record per position of the sequence, with the normalized value
  \<open>R = gap / ln\<^sup>2(p)\<close>, and one rebound per detected transition (its fields are the
  columns run_analysis.py writes).
\<close>

record gap_record =
  position :: nat
  starting_prime :: int
  gap_size :: int
  R_value :: real

record rebound =
  idx :: nat
  p_n :: int
  p_next :: int
  R_n :: real
  R_next :: real
  delta :: real

text \<open>
  Modelled from the spec: the rebound detection of the analysis module
  (\<^verbatim>\<open>analyze_rebounds\<close>, imported by run_analysis.py from a file that is not among
  the sources). The spec's words: it scans consecutive R values and records every
  transition where R increases (\<open>delta > 0\<close>), with \<open>delta = R_next - R_n\<close>.
\<close>

fun detect_rebounds :: "gap_record list \<Rightarrow> rebound list" where
  "detect_rebounds (x # y # rest) =
     (if 0 < R_value y - R_value x
      then \<lparr>idx = position x, p_n = starting_prime x, p_next = starting_prime y,
            R_n = R_value x, R_next = R_value y, delta = R_value y - R_value x\<rparr>
           # detect_rebounds (y # rest)
      else detect_rebounds (y # rest))"
| "detect_rebounds [x] = []"
| "detect_rebounds [] = []"

text \<open>
  Modelled from the spec: the reported rebound count is the number of recorded rebounds.
\<close>

definition rebound_count :: "gap_record list \<Rightarrow> nat" where
  "rebound_count recs = length (detect_rebounds recs)"

section \<open>Figure generation (generate_figures.py)\<close>

subsection \<open>The slopes table and its per-modulus aggregations\<close>

text \<open>
  A row of the progression-slopes table, as far as the aggregations read it: the modulus
  \<open>q\<close> and the slope \<open>beta\<close>, which may be missing (NaN in the frame). The
  aggregations of figures 3 and 5 run only when the table has both columns.
\<close>

type_synonym slope_row = "int \<times> real option"

text \<open>The rows of a group, and the slopes of the group that are not missing.\<close>

definition group_rows :: "slope_row list \<Rightarrow> int \<Rightarrow> slope_row list" where
  "group_rows rows q = filter (\<lambda>r. fst r = q) rows"

definition group_betas :: "slope_row list \<Rightarrow> int \<Rightarrow> real list" where
  "group_betas rows q = concat (map (\<lambda>r. case snd r of None \<Rightarrow> [] | Some b \<Rightarrow> [b]) (group_rows rows q))"

text \<open>\<^verbatim>\<open>groupby('q')\<close> visits the distinct values of \<open>q\<close> in ascending order.\<close>

definition group_keys :: "slope_row list \<Rightarrow> int list" where
  "group_keys rows = sort (remdups (map fst rows))"

text \<open>
  The pandas reductions skip missing values: \<^verbatim>\<open>mean\<close> of no value is NaN (\<open>None\<close>
  here), \<^verbatim>\<open>std\<close> is the sample standard deviation and is NaN below two values,
  \<^verbatim>\<open>count\<close> counts the values that are not missing.
\<close>

definition pd_mean :: "real list \<Rightarrow> real option" where
  "pd_mean xs = (if xs = [] then None else Some (sum_list xs / real (length xs)))"

definition pd_std :: "real list \<Rightarrow> real option" where
  "pd_std xs =
     (if length xs < 2 then None
      else Some (sqrt (sum_list (map (\<lambda>x. (x - sum_list xs / real (length xs))\<^sup>2) xs)
                       / real (length xs - 1))))"

record q_stats =
  q_key :: int
  mean :: "real option"
  std :: "real option"
  count :: nat

text \<open>\<^verbatim>\<open>df_slopes.groupby('q')['beta'].agg(['mean', 'std', 'count'])\<close>.\<close>

definition agg_by_q :: "slope_row list \<Rightarrow> q_stats list" where
  "agg_by_q rows =
     map (\<lambda>q. \<lparr>q_key = q, mean = pd_mean (group_betas rows q),
               std = pd_std (group_betas rows q), count = length (group_betas rows q)\<rparr>)
       (group_keys rows)"

text \<open>Figure 3: \<^verbatim>\<open>beta_by_q = beta_by_q[beta_by_q['count'] >= 3]\<close>.\<close>

definition figure3_beta_by_q :: "slope_row list \<Rightarrow> q_stats list" where
  "figure3_beta_by_q rows = filter (\<lambda>st. 3 \<le> count st) (agg_by_q rows)"

text \<open>
  Figure 5: the loop \<^verbatim>\<open>for q, group in df_slopes.groupby('q'): if len(group) >= 2\<close>,
  which collects the modulus, the mean and the standard deviation of each group of at
  least two rows, followed by the mask \<^verbatim>\<open>(beta_means > -0.5) & (beta_means < 1.5)\<close>
  (a comparison with NaN is false).
\<close>

definition figure5_groups :: "slope_row list \<Rightarrow> (int \<times> real option \<times> real option) list" where
  "figure5_groups rows =
     map (\<lambda>q. (q, pd_mean (group_betas rows q), pd_std (group_betas rows q)))
       (filter (\<lambda>q. 2 \<le> length (group_rows rows q)) (group_keys rows))"

definition figure5_points :: "slope_row list \<Rightarrow> (int \<times> real option \<times> real option) list" where
  "figure5_points rows =
     filter (\<lambda>(q, m, s). case m of None \<Rightarrow> False | Some v \<Rightarrow> - (1 / 2) < v \<and> v < 3 / 2)
       (figure5_groups rows)"

subsection \<open>Figure 4: the comparison with the random-matrix prediction\<close>

text \<open>
  Everything the figure script could read when it runs: the slopes table it loads, and the
  output of the random-matrix simulator of the analysis run, of whatever type.
\<close>

record 'sim world =
  df_slopes :: "slope_row list"
  rmt_results :: 'sim

definition q_values :: "int list" where
  "q_values = [4, 8, 12, 16, 20, 29]"

text \<open>
  The empirical bars: for each of the six moduli, the mean slope of its rows when the table
  has such rows, NaN otherwise.
\<close>

definition empirical_means :: "slope_row list \<Rightarrow> real option list" where
  "empirical_means rows =
     map (\<lambda>q. if q \<in> set (map fst rows) then pd_mean (group_betas rows q) else None) q_values"

text \<open>\<^verbatim>\<open>rmt_predictions = [-0.05] * len(q_values)\<close>.\<close>

definition rmt_predictions :: "real list" where
  "rmt_predictions = replicate (length q_values) (- (5 / 100))"

text \<open>
  What the right panel of figure 4 draws: the tick labels and the two series of bars
  (the two calls of \<^verbatim>\<open>ax2.bar\<close>).
\<close>

record bar_panel =
  tick_labels :: "int list"
  empirical_bars :: "real option list"
  rmt_bars :: "real list"

definition figure4_right_panel :: "'sim world \<Rightarrow> bar_panel" where
  "figure4_right_panel w =
     \<lparr>tick_labels = q_values,
      empirical_bars = empirical_means (df_slopes w),
      rmt_bars = rmt_predictions\<rparr>"

subsection \<open>The entry point and its guard on missing files\<close>

datatype run_outcome = Returned | Raised py_error

text \<open>
  \<^verbatim>\<open>sorted(glob.glob(os.path.join(processed_dir, prefix + '*' + suffix)))\<close>, given the
  names of the entries of the processed directory (none when the directory is missing):
  the paths of the names that start with the prefix and end with the suffix, in ascending
  order.
\<close>

definition glob_match :: "string \<Rightarrow> string \<Rightarrow> string \<Rightarrow> bool" where
  "glob_match pre suf name \<longleftrightarrow>
     length pre + length suf \<le> length name
     \<and> take (length pre) name = pre
     \<and> drop (length name - length suf) name = suf"

definition sorted_glob :: "string \<Rightarrow> string \<Rightarrow> string list \<Rightarrow> string list" where
  "sorted_glob pre suf names =
     sort (map (\<lambda>name. ''data/processed/'' @ name) (filter (glob_match pre suf) names))"

text \<open>
  \<^verbatim>\<open>main()\<close> up to its guard. Two parts of the run are parameters: \<open>style\<close> is how the
  call \<^verbatim>\<open>configure_plotting_style()\<close> ends (the plotting module is not among the
  sources), and \<open>rest\<close> is the remainder of \<^verbatim>\<open>main\<close> after the guard, given the two
  latest files: what it prints and how it ends. The result is the printed lines and the
  way the run ends.
\<close>

definition generate_figures_main ::
  "run_outcome \<Rightarrow> string list \<Rightarrow> (string \<Rightarrow> string \<Rightarrow> string list \<times> run_outcome)
     \<Rightarrow> string list \<times> run_outcome" where
  "generate_figures_main style names rest =
     (case style of
        Raised e \<Rightarrow> ([], Raised e)
      | Returned \<Rightarrow>
          (let rebound_files = sorted_glob ''rebounds_'' ''.csv'' names;
               slope_files = sorted_glob ''progression_slopes_'' ''.csv'' names
           in if rebound_files = [] \<or> slope_files = []
              then ([''Loading data...'', ''No data files found. Run run_analysis.py first.''],
                    Returned)
              else (let (out, res) = rest (last rebound_files) (last slope_files)
                    in (''Loading data...'' # out, res))))"

section \<open>Properties of the prime generation\<close>

subsection \<open>The array operations\<close>

lemma length_clear_slice [simp]: "length (clear_slice a start step) = length a"
  by (simp add: clear_slice_def)

lemma nth_clear_slice:
  "j < length a \<Longrightarrow> clear_slice a start step ! j = (\<not> (start \<le> j \<and> (j - start) mod step = 0) \<and> a ! j)"
  by (auto simp: clear_slice_def)

lemma length_clear_prefix [simp]: "length (clear_prefix a stop) = length a"
  by (simp add: clear_prefix_def)

lemma nth_clear_prefix:
  "j < length a \<Longrightarrow> clear_prefix a stop ! j = (\<not> j < stop \<and> a ! j)"
  by (auto simp: clear_prefix_def)

lemma length_np_ones [simp]: "length (np_ones n) = n"
  by (simp add: np_ones_def)

lemma nth_np_ones: "j < n \<Longrightarrow> np_ones n ! j"
  by (simp add: np_ones_def)

subsection \<open>The invariant of the sieve loop\<close>

lemma slice_index_iff:
  fixes i j :: nat
  assumes "0 < i"
  shows "(i * i \<le> j \<and> (j - i * i) mod i = 0) \<longleftrightarrow> (i * i \<le> j \<and> i dvd j)"
proof (cases "i * i \<le> j")
  case True
  then obtain m where m: "j = i * i + m"
    using le_Suc_ex by blast
  have "i dvd (i * i + m) \<longleftrightarrow> i dvd m"
    by (rule dvd_add_right_iff) simp
  then show ?thesis using m by (simp add: mod_eq_0_iff_dvd)
next
  case False
  then show ?thesis by simp
qed

lemma sieve_inv_init:
  assumes "2 \<le> n"
  shows "sieve_inv 3 n (clear_slice (clear_prefix (np_ones (n + 1)) 2) 4 2)"
proof -
  let ?a = "clear_prefix (np_ones (n + 1)) 2"
  have crit: "no_small_divisor 3 j \<longleftrightarrow> \<not> (4 \<le> j \<and> (j - 4) mod 2 = 0) \<and> \<not> j < 2" for j
  proof -
    have a: "(\<forall>d. 2 \<le> d \<and> d < 3 \<and> d * d \<le> j \<longrightarrow> \<not> d dvd j) \<longleftrightarrow> \<not> (4 \<le> j \<and> 2 dvd j)"
    proof
      assume h: "\<forall>d. 2 \<le> d \<and> d < 3 \<and> d * d \<le> j \<longrightarrow> \<not> d dvd j"
      show "\<not> (4 \<le> j \<and> 2 dvd j)" using h[rule_format, of 2] by auto
    next
      assume h: "\<not> (4 \<le> j \<and> 2 dvd j)"
      show "\<forall>d. 2 \<le> d \<and> d < 3 \<and> d * d \<le> j \<longrightarrow> \<not> d dvd j"
      proof (intro allI impI)
        fix d assume "2 \<le> d \<and> d < 3 \<and> d * d \<le> j"
        then have d2: "d = 2" and dj: "d * d \<le> j" by auto
        from dj have "4 \<le> j" unfolding d2 by simp
        with h d2 show "\<not> d dvd j" by simp
      qed
    qed
    have b: "(4 \<le> j \<and> (j - 4) mod 2 = 0) \<longleftrightarrow> (4 \<le> j \<and> 2 dvd j)"
      by presburger
    show ?thesis unfolding no_small_divisor_def a b by auto
  qed
  have "clear_slice ?a 4 2 ! j = no_small_divisor 3 j" if "j \<le> n" for j
  proof -
    have jn: "j < n + 1" using that by simp
    have "clear_slice ?a 4 2 ! j = (\<not> (4 \<le> j \<and> (j - 4) mod 2 = 0) \<and> ?a ! j)"
      by (rule nth_clear_slice) (use jn in simp)
    also have "?a ! j = (\<not> j < 2 \<and> np_ones (n + 1) ! j)"
      by (rule nth_clear_prefix) (use jn in simp)
    also have "np_ones (n + 1) ! j = True"
      using nth_np_ones[OF jn] by simp
    finally show ?thesis unfolding crit by simp
  qed
  then show ?thesis unfolding sieve_inv_def by simp
qed

lemma sieve_inv_step:
  assumes inv: "sieve_inv i n s" and i3: "3 \<le> i" and iodd: "odd i" and iin: "i \<le> n"
  shows "sieve_inv (i + 2) n (if s ! i then clear_slice s (i * i) i else s)"
proof -
  have len: "length s = n + 1" and nth: "\<And>j. j \<le> n \<Longrightarrow> s ! j = no_small_divisor i j"
    using inv by (auto simp: sieve_inv_def)
  have step: "no_small_divisor (i + 2) j \<longleftrightarrow> no_small_divisor i j \<and> \<not> (i * i \<le> j \<and> i dvd j)" for j
  proof
    assume h: "no_small_divisor (i + 2) j"
    then have "no_small_divisor i j" by (auto simp: no_small_divisor_def)
    moreover have "\<not> (i * i \<le> j \<and> i dvd j)"
      using h i3 by (auto simp: no_small_divisor_def)
    ultimately show "no_small_divisor i j \<and> \<not> (i * i \<le> j \<and> i dvd j)" by simp
  next
    assume h: "no_small_divisor i j \<and> \<not> (i * i \<le> j \<and> i dvd j)"
    then have j2: "2 \<le> j" by (simp add: no_small_divisor_def)
    have "\<not> d dvd j" if d: "2 \<le> d" "d < i + 2" "d * d \<le> j" for d
    proof (cases "d < i")
      case True
      with h d show ?thesis by (auto simp: no_small_divisor_def)
    next
      case False
      then consider "d = i" | "d = i + 1" using d by linarith
      then show ?thesis
      proof cases
        case 1
        with h d show ?thesis by simp
      next
        case 2
        show ?thesis
        proof
          assume dv: "d dvd j"
          have "2 dvd d" using 2 iodd by simp
          then have "2 dvd j" using dv by (rule dvd_trans)
          moreover have "(2::nat) * 2 \<le> j"
          proof -
            have "(2::nat) * 2 \<le> d * d" using d(1) by (intro mult_mono) auto
            then show ?thesis using d(3) by linarith
          qed
          moreover have "(2::nat) < i" using i3 by simp
          ultimately show False using h by (auto simp: no_small_divisor_def)
        qed
      qed
    qed
    then show "no_small_divisor (i + 2) j" using j2 by (auto simp: no_small_divisor_def)
  qed
  show ?thesis
  proof (cases "s ! i")
    case True
    have ipos: "0 < i" using i3 by simp
    have "clear_slice s (i * i) i ! j = no_small_divisor (i + 2) j" if "j \<le> n" for j
    proof -
      have "j < length s" using that len by simp
      then have "clear_slice s (i * i) i ! j = (\<not> (i * i \<le> j \<and> (j - i * i) mod i = 0) \<and> s ! j)"
        by (rule nth_clear_slice)
      also have "\<dots> = (\<not> (i * i \<le> j \<and> i dvd j) \<and> no_small_divisor i j)"
        unfolding slice_index_iff[OF ipos] nth[OF that] ..
      also have "\<dots> = no_small_divisor (i + 2) j"
        unfolding step by blast
      finally show ?thesis .
    qed
    then show ?thesis
      using True len unfolding sieve_inv_def by simp
  next
    case False
    then have "\<not> no_small_divisor i i" using nth[OF iin] by simp
    then obtain d where d: "2 \<le> d" "d < i" "d * d \<le> i" "d dvd i"
      using i3 by (auto simp: no_small_divisor_def)
    have "\<not> no_small_divisor i j" if "i * i \<le> j" "i dvd j" for j
    proof -
      have "d dvd j" using d(4) that(2) by (rule dvd_trans)
      moreover have "d * d \<le> j"
      proof -
        have "i \<le> i * i" by simp
        then show ?thesis using d(3) that(1) by linarith
      qed
      ultimately show ?thesis using d(1,2) by (auto simp: no_small_divisor_def)
    qed
    then have "no_small_divisor (i + 2) j = no_small_divisor i j" for j
      using step by blast
    then show ?thesis using False len nth by (simp add: sieve_inv_def)
  qed
qed

lemma sieve_loop_inv:
  "sieve_inv i n s \<Longrightarrow> 3 \<le> i \<Longrightarrow> odd i \<Longrightarrow> stop \<le> n + 1 \<Longrightarrow>
   \<exists>s' k. sieve_loop i stop s = Inr s' \<and> sieve_inv k n s' \<and> stop \<le> k"
proof (induction i stop s rule: sieve_loop.induct)
  case (1 i stop sieve)
  show ?case
  proof (cases "i < stop")
    case False
    then show ?thesis using "1.prems"(1) by (subst sieve_loop.simps) auto
  next
    case True
    then have iin: "i \<le> n" using "1.prems"(4) by simp
    have len: "i < length sieve" using "1.prems"(1) iin by (simp add: sieve_inv_def)
    let ?s = "if sieve ! i then clear_slice sieve (i * i) i else sieve"
    have inv': "sieve_inv (i + 2) n ?s"
      using sieve_inv_step[OF "1.prems"(1) "1.prems"(2) "1.prems"(3) iin] .
    have "\<exists>s' k. sieve_loop (i + 2) stop ?s = Inr s' \<and> sieve_inv k n s' \<and> stop \<le> k"
      using "1.IH"[OF True len inv'] "1.prems" by simp
    then show ?thesis using True len by (subst sieve_loop.simps) simp
  qed
qed

subsection \<open>From the invariant to primality\<close>

text \<open>\<open>is_prime\<close> is primality as usually stated: the only divisors are 1 and the number.\<close>

lemma is_prime_iff_divisors:
  "is_prime n \<longleftrightarrow> 1 < n \<and> (\<forall>d. d dvd n \<longrightarrow> d = 1 \<or> d = n)"
proof
  assume h: "is_prime n"
  then have n1: "1 < n" by (simp add: is_prime_def)
  have "d = 1 \<or> d = n" if "d dvd n" for d
  proof (rule ccontr)
    assume c: "\<not> (d = 1 \<or> d = n)"
    have "d \<le> n" using that n1 by (intro dvd_imp_le) auto
    moreover have "d \<noteq> 0"
    proof
      assume "d = 0"
      then have "n = 0" using that by simp
      then show False using n1 by simp
    qed
    ultimately have "d \<in> {2..<n}" using c by auto
    then show False using h that by (simp add: is_prime_def)
  qed
  then show "1 < n \<and> (\<forall>d. d dvd n \<longrightarrow> d = 1 \<or> d = n)" using n1 by blast
next
  assume h: "1 < n \<and> (\<forall>d. d dvd n \<longrightarrow> d = 1 \<or> d = n)"
  then have "\<not> d dvd n" if "d \<in> {2..<n}" for d
    using that by auto
  then show "is_prime n" using h by (simp add: is_prime_def)
qed

lemma composite_small_divisor:
  assumes "2 \<le> d" "d < j" "d dvd (j::nat)"
  shows "\<exists>e. 2 \<le> e \<and> e * e \<le> j \<and> e dvd j"
proof -
  from assms(3) obtain c where c: "j = d * c" by (auto simp: dvd_def)
  have c2: "2 \<le> c"
  proof (rule ccontr)
    assume "\<not> 2 \<le> c"
    then have "c = 0 \<or> c = 1" by linarith
    then show False using c assms by auto
  qed
  show ?thesis
  proof (cases "d \<le> c")
    case True
    then have "d * d \<le> j" using c by simp
    then show ?thesis using assms by blast
  next
    case False
    then have "c * c \<le> j" using c by simp
    moreover have "c dvd j" using c by simp
    ultimately show ?thesis using c2 by blast
  qed
qed

lemma no_small_divisor_prime:
  assumes "j \<le> n" "n < k * k"
  shows "no_small_divisor k j \<longleftrightarrow> is_prime j"
proof
  assume h: "no_small_divisor k j"
  then have j2: "2 \<le> j" by (simp add: no_small_divisor_def)
  have "\<not> d dvd j" if "d \<in> {2..<j}" for d
  proof
    assume "d dvd j"
    with that obtain e where e: "2 \<le> e" "e * e \<le> j" "e dvd j"
      using composite_small_divisor[of d j] by auto
    have "e < k"
    proof (rule ccontr)
      assume "\<not> e < k"
      then have "k * k \<le> e * e" by (intro mult_mono) auto
      then show False using e(2) assms by linarith
    qed
    then show False using h e by (auto simp: no_small_divisor_def)
  qed
  then show "is_prime j" using j2 by (auto simp: is_prime_def)
next
  assume h: "is_prime j"
  then have j2: "2 \<le> j" by (simp add: is_prime_def)
  have "\<not> d dvd j" if d: "2 \<le> d" "d * d \<le> j" for d
  proof -
    have "d * 2 \<le> d * d" using d(1) by (intro mult_le_mono2)
    then have "d < j" using d by linarith
    then have "d \<in> {2..<j}" using d(1) by simp
    then show ?thesis using h by (simp add: is_prime_def)
  qed
  then show "no_small_divisor k j" using j2 by (auto simp: no_small_divisor_def)
qed

subsection \<open>The loop bound\<close>

lemma floor_sqrt_bounds:
  "floor_sqrt n * floor_sqrt n \<le> n \<and> n < (floor_sqrt n + 1) * (floor_sqrt n + 1)"
proof (induction n rule: floor_sqrt.induct)
  case (1 n)
  show ?case
  proof (cases "n = 0")
    case True
    then show ?thesis by (simp add: floor_sqrt.simps)
  next
    case False
    define m where "m = floor_sqrt (n div 4)"
    from 1 False have ih: "m * m \<le> n div 4" "n div 4 < (m + 1) * (m + 1)"
      by (simp_all add: m_def)
    have lo: "(2 * m) * (2 * m) \<le> n"
    proof -
      have "(2 * m) * (2 * m) = 4 * (m * m)" by simp
      also have "\<dots> \<le> 4 * (n div 4)" using ih(1) by simp
      also have "\<dots> \<le> n" by simp
      finally show ?thesis .
    qed
    have hi: "n < (2 * m + 2) * (2 * m + 2)"
    proof -
      have "n < 4 * (n div 4) + 4" by presburger
      also have "\<dots> \<le> 4 * ((m + 1) * (m + 1))" using ih(2) by simp
      also have "\<dots> = (2 * m + 2) * (2 * m + 2)" by (simp add: algebra_simps)
      finally show ?thesis .
    qed
    have eq: "floor_sqrt n = (if (2 * m + 1) * (2 * m + 1) \<le> n then 2 * m + 1 else 2 * m)"
      using False by (subst floor_sqrt.simps) (simp add: m_def Let_def)
    show ?thesis
    proof (cases "(2 * m + 1) * (2 * m + 1) \<le> n")
      case True
      then show ?thesis using eq hi by (simp add: numeral_2_eq_2 add.commute)
    next
      case False
      then show ?thesis using eq lo by simp
    qed
  qed
qed

lemma floor_sqrt_le: "floor_sqrt n \<le> n"
proof -
  have "floor_sqrt n \<le> floor_sqrt n * floor_sqrt n"
    by (cases "floor_sqrt n") simp_all
  then show ?thesis using floor_sqrt_bounds[of n] by linarith
qed

subsection \<open>The result of the sieve\<close>

lemma sieve_of_eratosthenes_list:
  assumes "2 \<le> limit"
  shows "sieve_of_eratosthenes limit = Inr (map int (filter is_prime [0..<nat limit + 1]))"
proof -
  define n where "n = nat limit"
  have n2: "2 \<le> n" using assms by (simp add: n_def)
  let ?s0 = "clear_slice (clear_prefix (np_ones (n + 1)) 2) 4 2"
  have "\<exists>s' k. sieve_loop 3 (floor_sqrt n + 1) ?s0 = Inr s' \<and> sieve_inv k n s' \<and> floor_sqrt n + 1 \<le> k"
    by (rule sieve_loop_inv[OF sieve_inv_init[OF n2]]) (simp_all add: floor_sqrt_le)
  then obtain s' k where loop: "sieve_loop 3 (floor_sqrt n + 1) ?s0 = Inr s'"
    and inv: "sieve_inv k n s'" and k: "floor_sqrt n + 1 \<le> k"
    by blast
  have "(floor_sqrt n + 1) * (floor_sqrt n + 1) \<le> k * k"
    using k by (intro mult_le_mono)
  then have nk: "n < k * k" using floor_sqrt_bounds[of n] by linarith
  have len: "length s' = n + 1" using inv by (simp add: sieve_inv_def)
  have "np_where s' = filter is_prime [0..<n + 1]"
    unfolding np_where_def len
  proof (rule filter_cong[OF refl])
    fix j assume "j \<in> set [0..<n + 1]"
    then have jn: "j \<le> n" by (simp del: upt_Suc)
    then have "s' ! j = no_small_divisor k j" using inv by (simp add: sieve_inv_def)
    then show "s' ! j = is_prime j" using no_small_divisor_prime[OF jn nk] by simp
  qed
  then show ?thesis
    using assms loop by (simp add: sieve_of_eratosthenes_def n_def Let_def)
qed

text \<open>
  Claim C1. For every limit, \<open>sieve_of_eratosthenes limit\<close> returns (without raising) a
  list that holds exactly the primes \<open>p \<le> limit\<close> and is strictly increasing; it
  returns the empty list for every limit below 2 (written \<open>min limit 1\<close>); and for the
  limit 30 the list is \<open>[2, 3, 5, 7, 11, 13, 17, 19, 23, 29]\<close>.
\<close>

theorem sieve_of_eratosthenes_primes:
  "(\<exists>ps. sieve_of_eratosthenes limit = Inr ps
      \<and> set ps = {p. 0 \<le> p \<and> p \<le> limit \<and> is_prime (nat p)}
      \<and> sorted_wrt (<) ps)
   \<and> sieve_of_eratosthenes (min limit 1) = Inr []
   \<and> sieve_of_eratosthenes 30 = Inr [2, 3, 5, 7, 11, 13, 17, 19, 23, 29]"
proof (intro conjI)
  show "\<exists>ps. sieve_of_eratosthenes limit = Inr ps
      \<and> set ps = {p. 0 \<le> p \<and> p \<le> limit \<and> is_prime (nat p)}
      \<and> sorted_wrt (<) ps"
  proof (cases "limit < 2")
    case True
    then have "{p. 0 \<le> p \<and> p \<le> limit \<and> is_prime (nat p)} = {}"
      by (auto simp: is_prime_def)
    then show ?thesis using True by (simp add: sieve_of_eratosthenes_def)
  next
    case False
    let ?ps = "map int (filter is_prime [0..<nat limit + 1])"
    have eq: "sieve_of_eratosthenes limit = Inr ?ps"
      using False by (intro sieve_of_eratosthenes_list) simp
    have "set ?ps = {p. 0 \<le> p \<and> p \<le> limit \<and> is_prime (nat p)}"
    proof (intro set_eqI iffI)
      fix p assume "p \<in> set ?ps"
      then obtain j where "p = int j" "j < nat limit + 1" "is_prime j"
        by (auto simp del: upt_Suc)
      then show "p \<in> {p. 0 \<le> p \<and> p \<le> limit \<and> is_prime (nat p)}"
        using False by auto
    next
      fix p assume "p \<in> {p. 0 \<le> p \<and> p \<le> limit \<and> is_prime (nat p)}"
      then have p: "0 \<le> p" "p \<le> limit" "is_prime (nat p)" by auto
      then have "nat p \<in> set (filter is_prime [0..<nat limit + 1])"
        by (auto simp del: upt_Suc)
      then have "int (nat p) \<in> set ?ps" by (simp only: set_map image_eqI)
      then show "p \<in> set ?ps" using p(1) by simp
    qed
    moreover have "sorted_wrt (<) ?ps"
      by (simp add: sorted_wrt_map sorted_wrt_filter del: upt_Suc)
    ultimately show ?thesis using eq by blast
  qed
  show "sieve_of_eratosthenes (min limit 1) = Inr []"
  proof -
    have "min limit 1 < 2" by simp
    then show ?thesis unfolding sieve_of_eratosthenes_def by (simp only: if_True)
  qed
  show "sieve_of_eratosthenes 30 = Inr [2, 3, 5, 7, 11, 13, 17, 19, 23, 29]"
    by code_simp
qed

text \<open>The theorem at the limits 30 and 0.\<close>

theorem sieve_of_eratosthenes_primes_witness:
  "sieve_of_eratosthenes 30 = Inr [2, 3, 5, 7, 11, 13, 17, 19, 23, 29]
   \<and> set [2, 3, 5, 7, 11, 13, 17, 19, 23, 29] = {p. 0 \<le> p \<and> p \<le> (30::int) \<and> is_prime (nat p)}
   \<and> sorted_wrt (<) [2, 3, 5, 7, 11, 13, 17, 19, 23, 29 :: int]
   \<and> sieve_of_eratosthenes (min 0 1) = Inr []"
  using sieve_of_eratosthenes_primes [of 30] sieve_of_eratosthenes_primes [of 0] by auto

section \<open>Properties of the progression filter\<close>

text \<open>
  Claim C4. For every list of integers \<open>primes\<close>, every residue \<open>a\<close> and every modulus
  \<open>q\<close> other than 0, \<open>primes_in_progression primes a q\<close> returns (without raising)
  exactly the elements \<open>p\<close> of \<open>primes\<close> with \<open>p mod q = a\<close>, in the order of the input.
\<close>

theorem primes_in_progression_filter:
  "q \<noteq> 0 \<Longrightarrow> primes_in_progression primes a q = Inr (filter (\<lambda>p. p mod q = a) primes)"
  by (induction primes) (simp_all add: py_mod_def)

text \<open>The theorem on a list with a negative entry, modulus 4 and residue 1.\<close>

theorem primes_in_progression_filter_witness:
  "(4::int) \<noteq> 0 \<and> primes_in_progression [2, 3, 5, 7, 11, 13, - 3] 1 4 = Inr [5, 13, - 3]"
  using primes_in_progression_filter [of 4 "[2, 3, 5, 7, 11, 13, - 3]" 1] by simp

text \<open>With the modulus 0 the first element already raises; the empty list does not.\<close>

lemma primes_in_progression_zero_modulus:
  "primes_in_progression (p # primes) a 0 = Inl ZeroDivisionError"
  "primes_in_progression [] a 0 = Inr []"
  by (simp_all add: py_mod_def)

section \<open>Properties of the gap normalization\<close>

text \<open>
  Claim C7. For every \<open>p > 1\<close>, \<open>normalize_gap gap p\<close> returns the gap divided by the
  square of the natural logarithm of \<open>p\<close>; in particular \<open>normalize_gap 8 23\<close> is
  \<open>8 / (ln 23)\<^sup>2\<close>. Floats are real numbers here, so the equation is exact.
\<close>

theorem normalize_gap_formula:
  "1 < p \<Longrightarrow> normalize_gap gap p = Inr (real_of_int gap / (ln p)\<^sup>2)"
  by (simp add: normalize_gap_def math_log_def py_truediv_def)

text \<open>The theorem at the gap 8 and the prime 23.\<close>

theorem normalize_gap_formula_witness:
  "(1::real) < 23 \<and> normalize_gap 8 23 = Inr (8 / (ln 23)\<^sup>2)"
  using normalize_gap_formula [of 23 8] by simp

text \<open>
  Claim C10. For every gap and every \<open>p \<le> 1\<close>, \<open>normalize_gap gap p\<close> returns 0 and
  raises nothing.
\<close>

theorem normalize_gap_guard:
  "p \<le> 1 \<Longrightarrow> normalize_gap gap p = Inr 0"
  by (simp add: normalize_gap_def)

text \<open>The theorem at \<open>p = 1\<close>, where the logarithm is zero.\<close>

theorem normalize_gap_guard_witness:
  "(1::real) \<le> 1 \<and> normalize_gap 8 1 = Inr 0"
  using normalize_gap_guard [of 1 8] by simp

text \<open>
  What the guard keeps away: without it the formula divides by zero at \<open>p = 1\<close> and the
  logarithm raises for \<open>p \<le> 0\<close>.
\<close>

lemma normalize_gap_unguarded_at_one:
  "normalize_gap_unguarded gap 1 = Inl ZeroDivisionError"
  by (simp add: normalize_gap_unguarded_def math_log_def py_truediv_def)

lemma normalize_gap_unguarded_nonpositive:
  "p \<le> 0 \<Longrightarrow> normalize_gap_unguarded gap p = Inl ValueError"
  by (simp add: normalize_gap_unguarded_def math_log_def)

section \<open>Properties of the sequence provider\<close>

subsection \<open>The bound on the success path\<close>

lemma read_terms_length:
  "length data < nat max_terms \<Longrightarrow> length (read_terms lines data max_terms) \<le> nat max_terms"
proof (induction lines arbitrary: data)
  case Nil
  then show ?case by simp
next
  case (Cons line rest)
  show ?case
  proof (cases "startswith_hash line \<or> \<not> 2 \<le> length (py_split line)")
    case True
    then show ?thesis using Cons by auto
  next
    case False
    show ?thesis
    proof (cases "py_int (py_strip (py_split line ! 1))")
      case (Inl e)
      then show ?thesis using Cons False by simp
    next
      case (Inr v)
      show ?thesis
      proof (cases "max_terms \<le> int (length (data @ [v]))")
        case True
        then have "read_terms (line # rest) data max_terms = data @ [v]"
          using False Inr by simp
        then show ?thesis using Cons.prems by simp
      next
        case nf: False
        then have "read_terms (line # rest) data max_terms = read_terms rest (data @ [v]) max_terms"
          using False Inr by simp
        moreover have "length (data @ [v]) < nat max_terms" using nf by simp
        ultimately show ?thesis using Cons.IH by simp
      qed
    qed
  qed
qed

text \<open>
  When the fetch succeeds and \<open>max_terms\<close> is at least 1, at most \<open>max_terms\<close> terms are
  returned.
\<close>

lemma fetch_try_bounded:
  "1 \<le> max_terms \<Longrightarrow> fetch_try net max_terms = Inr data \<Longrightarrow> int (length data) \<le> max_terms"
proof -
  assume m: "1 \<le> max_terms" and f: "fetch_try net max_terms = Inr data"
  from f obtain lines where "data = read_terms lines [] max_terms"
    by (auto simp: fetch_try_def split: http_outcome.splits if_splits)
  moreover have "length (read_terms lines [] max_terms) \<le> nat max_terms"
    using m by (intro read_terms_length) simp
  ultimately have "length data \<le> nat max_terms" by simp
  then show ?thesis using m by linarith
qed

subsection \<open>Where the bound fails\<close>

text \<open>
  Claim C3 (at most \<open>max_terms\<close> terms on both paths) does not hold of the code. When the
  request fails, \<open>fetch_oeis_sequence\<close> with the sequence 5250 and \<open>max_terms = 5\<close> returns
  the 20 terms of the fallback table: \<open>get_fallback_sequence\<close> takes \<open>max_terms\<close> and
  never reads it. On the success path the bound is tested after the append, so
  \<open>max_terms = 0\<close> returns one term from a response that has one.
\<close>

theorem fetch_oeis_sequence_exceeds_max_terms:
  "fetch_oeis_sequence Request_failed 5250 5 =
     [1, 2, 4, 6, 8, 14, 18, 20, 22, 34, 36, 44, 52, 72, 86, 96, 112, 114, 118, 132]
   \<and> length (fetch_oeis_sequence Request_failed 5250 5) = 20
   \<and> fetch_oeis_sequence (Response 200 ''1 1'') 5250 0 = [1]"
proof (intro conjI)
  show "fetch_oeis_sequence Request_failed 5250 5 =
     [1, 2, 4, 6, 8, 14, 18, 20, 22, 34, 36, 44, 52, 72, 86, 96, 112, 114, 118, 132]"
    by (simp add: fetch_oeis_sequence_def fetch_try_def get_fallback_sequence_def)
  then show "length (fetch_oeis_sequence Request_failed 5250 5) = 20"
    by simp
  show "fetch_oeis_sequence (Response 200 ''1 1'') 5250 0 = [1]"
    by code_simp
qed

subsection \<open>The fallback\<close>

text \<open>
  Claim C6. Whenever an exception leaves the \<^verbatim>\<open>try\<close> block (the request fails, or the
  status is an error status), \<open>fetch_oeis_sequence\<close> with the sequence 5250 returns the
  fixed list of 20 terms, whatever \<open>max_terms\<close> is; the function returns a list and
  raises nothing.
\<close>

theorem fetch_fallback_5250:
  "fetch_try net max_terms = Inl e \<Longrightarrow>
   fetch_oeis_sequence net 5250 max_terms =
     [1, 2, 4, 6, 8, 14, 18, 20, 22, 34, 36, 44, 52, 72, 86, 96, 112, 114, 118, 132]"
  by (simp add: fetch_oeis_sequence_def get_fallback_sequence_def)

text \<open>The theorem at a failed request and at a response with the status 503.\<close>

theorem fetch_fallback_5250_witness:
  "fetch_try Request_failed 200 = Inl RequestException
   \<and> fetch_oeis_sequence Request_failed 5250 200 =
       [1, 2, 4, 6, 8, 14, 18, 20, 22, 34, 36, 44, 52, 72, 86, 96, 112, 114, 118, 132]
   \<and> fetch_try (Response 503 ''1 1'') 200 = Inl HTTPError
   \<and> fetch_oeis_sequence (Response 503 ''1 1'') 5250 200 =
       [1, 2, 4, 6, 8, 14, 18, 20, 22, 34, 36, 44, 52, 72, 86, 96, 112, 114, 118, 132]"
proof -
  have a: "fetch_try Request_failed 200 = Inl RequestException"
    by (simp add: fetch_try_def)
  have b: "fetch_try (Response 503 ''1 1'') 200 = Inl HTTPError"
    by (simp add: fetch_try_def)
  show ?thesis
    using a b fetch_fallback_5250 [OF a] fetch_fallback_5250 [OF b] by simp
qed

section \<open>Properties of the rebound detection\<close>

lemma detect_rebounds_nonincreasing:
  "sorted_wrt (\<ge>) (map R_value recs) \<Longrightarrow> detect_rebounds recs = []"
  by (induction recs rule: detect_rebounds.induct) auto

text \<open>No rebound is detected exactly when the R values never increase.\<close>

lemma detect_rebounds_empty_iff:
  "detect_rebounds recs = [] \<longleftrightarrow> sorted_wrt (\<ge>) (map R_value recs)"
proof (induction recs rule: detect_rebounds.induct)
  case (1 x y rest)
  show ?case
  proof (cases "0 < R_value y - R_value x")
    case True
    then show ?thesis by auto
  next
    case False
    have "sorted_wrt (\<ge>) (map R_value (x # y # rest))
          \<longleftrightarrow> R_value y \<le> R_value x \<and> sorted_wrt (\<ge>) (map R_value (y # rest))"
      by auto
    then show ?thesis using False 1 by simp
  qed
qed simp_all

text \<open>
  Claim C2, as stated, fails: the sequence of R values 1, 2 is monotonically
  non-decreasing and its one transition has \<open>delta = 1 > 0\<close>, so the count is 1.
\<close>

theorem rebound_count_nondecreasing_counterexample:
  "sorted (map R_value [\<lparr>position = 0, starting_prime = 2, gap_size = 1, R_value = 1\<rparr>,
                        \<lparr>position = 1, starting_prime = 3, gap_size = 2, R_value = 2\<rparr>])
   \<and> rebound_count [\<lparr>position = 0, starting_prime = 2, gap_size = 1, R_value = 1\<rparr>,
                     \<lparr>position = 1, starting_prime = 3, gap_size = 2, R_value = 2\<rparr>] = 1"
  by (simp add: rebound_count_def)

text \<open>
  Claim C2, amended: for every monotonically non-increasing sequence of R values given to
  the rebound detection, the rebound count is 0.
\<close>

theorem rebound_count_nonincreasing:
  "sorted_wrt (\<ge>) (map R_value recs) \<Longrightarrow> rebound_count recs = 0"
  by (simp add: rebound_count_def detect_rebounds_nonincreasing)

text \<open>The theorem at the R values 3, 2, 2.\<close>

theorem rebound_count_nonincreasing_witness:
  "sorted_wrt (\<ge>) (map R_value [\<lparr>position = 0, starting_prime = 2, gap_size = 1, R_value = 3\<rparr>,
                                  \<lparr>position = 1, starting_prime = 3, gap_size = 2, R_value = 2\<rparr>,
                                  \<lparr>position = 2, starting_prime = 7, gap_size = 4, R_value = 2\<rparr>])
   \<and> rebound_count [\<lparr>position = 0, starting_prime = 2, gap_size = 1, R_value = 3\<rparr>,
                     \<lparr>position = 1, starting_prime = 3, gap_size = 2, R_value = 2\<rparr>,
                     \<lparr>position = 2, starting_prime = 7, gap_size = 4, R_value = 2\<rparr>] = 0"
proof -
  have h: "sorted_wrt (\<ge>) (map R_value [\<lparr>position = 0, starting_prime = 2, gap_size = 1, R_value = 3\<rparr>,
                                  \<lparr>position = 1, starting_prime = 3, gap_size = 2, R_value = 2\<rparr>,
                                  \<lparr>position = 2, starting_prime = 7, gap_size = 4, R_value = 2\<rparr>])"
    by simp
  show ?thesis using h rebound_count_nonincreasing [OF h] by simp
qed

section \<open>Properties of the figure generation\<close>

subsection \<open>The thresholds of the per-modulus aggregations\<close>

text \<open>
  Claim C5, as stated, fails: the aggregation of figure 5 keeps a modulus whose group has
  two rows. With the two slopes 0.1 and 0.2 for the modulus 4, the points of figure 5
  hold the modulus 4.
\<close>

theorem figure5_two_samples_counterexample:
  "map fst (figure5_points [(4, Some (1 / 10)), (4, Some (2 / 10))]) = [4]
   \<and> length (group_rows [(4, Some (1 / 10)), (4, Some (2 / 10))] 4) = 2
   \<and> length (group_betas [(4, Some (1 / 10)), (4, Some (2 / 10))] 4) = 2"
  by (simp add: figure5_points_def figure5_groups_def group_keys_def group_betas_def
      group_rows_def pd_mean_def)

text \<open>
  Claim C5, amended: the aggregation of figure 3 (mean, standard deviation and count per
  modulus) reports a modulus only when its group has at least 3 slopes that are not
  missing; the aggregation of figure 5 reports a modulus only when its group has at least
  2 rows.
\<close>

theorem aggregation_thresholds:
  "(q \<in> set (map q_key (figure3_beta_by_q rows)) \<longrightarrow> 3 \<le> length (group_betas rows q))
   \<and> (q \<in> set (map fst (figure5_points rows)) \<longrightarrow> 2 \<le> length (group_rows rows q))"
  by (auto simp: figure3_beta_by_q_def agg_by_q_def figure5_points_def figure5_groups_def)

text \<open>The theorem at a table with three slopes for the modulus 4, and at one with two.\<close>

theorem aggregation_thresholds_witness:
  "4 \<in> set (map q_key (figure3_beta_by_q [(4, Some 1), (4, Some 2), (4, Some 3), (5, Some 1)]))
   \<and> 3 \<le> length (group_betas [(4, Some 1), (4, Some 2), (4, Some 3), (5, Some 1)] 4)
   \<and> 4 \<in> set (map fst (figure5_points [(4, Some 1), (4, Some (1 / 2)), (5, Some 1)]))
   \<and> 2 \<le> length (group_rows [(4, Some 1), (4, Some (1 / 2)), (5, Some 1)] 4)"
proof -
  have a: "4 \<in> set (map q_key (figure3_beta_by_q [(4, Some 1), (4, Some 2), (4, Some 3), (5, Some 1)]))"
    by (simp add: figure3_beta_by_q_def agg_by_q_def group_keys_def group_betas_def group_rows_def)
  have b: "4 \<in> set (map fst (figure5_points [(4, Some 1), (4, Some (1 / 2)), (5, Some 1)]))"
    by (simp add: figure5_points_def figure5_groups_def group_keys_def group_betas_def
        group_rows_def pd_mean_def)
  show ?thesis
    using a b
      aggregation_thresholds [of 4 "[(4, Some 1), (4, Some 2), (4, Some 3), (5, Some 1)]"]
      aggregation_thresholds [of 4 "[(4, Some 1), (4, Some (1 / 2)), (5, Some 1)]"]
    by blast
qed

subsection \<open>The guard on missing files\<close>

text \<open>
  Claim C8. When the processed directory holds no rebounds file or no progression-slopes
  file, and the style configuration has returned, \<open>generate_figures_main\<close> prints the
  message and returns: the rest of the run, whatever it would do, is not entered.
\<close>

theorem missing_files_guard:
  "filter (glob_match ''rebounds_'' ''.csv'') names = []
     \<or> filter (glob_match ''progression_slopes_'' ''.csv'') names = [] \<Longrightarrow>
   generate_figures_main Returned names rest =
     ([''Loading data...'', ''No data files found. Run run_analysis.py first.''], Returned)"
  by (auto simp: generate_figures_main_def sorted_glob_def Let_def)

text \<open>
  The theorem at a directory with a rebounds file and no slopes file, and a rest of the
  run that would raise.
\<close>

theorem missing_files_guard_witness:
  "filter (glob_match ''progression_slopes_'' ''.csv'') [''rebounds_20240101_120000.csv'', ''notes.txt''] = []
   \<and> generate_figures_main Returned [''rebounds_20240101_120000.csv'', ''notes.txt'']
        (\<lambda>latest_rebounds latest_slopes. ([], Raised ValueError)) =
       ([''Loading data...'', ''No data files found. Run run_analysis.py first.''], Returned)"
proof -
  have h: "filter (glob_match ''progression_slopes_'' ''.csv'')
             [''rebounds_20240101_120000.csv'', ''notes.txt''] = []"
    by (simp add: glob_match_def)
  show ?thesis
    using h missing_files_guard [OF disjI2 [OF h], of "\<lambda>latest_rebounds latest_slopes. ([], Raised ValueError)"]
    by simp
qed

text \<open>With both files present the run goes on with the latest of each.\<close>

lemma both_files_present:
  "generate_figures_main Returned
     [''rebounds_1.csv'', ''progression_slopes_2.csv'', ''rebounds_3.csv'']
     (\<lambda>latest_rebounds latest_slopes. ([latest_rebounds, latest_slopes], Returned)) =
   ([''Loading data...'', ''data/processed/rebounds_3.csv'',
     ''data/processed/progression_slopes_2.csv''], Returned)"
  by code_simp

subsection \<open>The random-matrix bars of figure 4\<close>

text \<open>
  Claim C9. The random-matrix predictions that figure 4 draws are the constant \<open>-0.05\<close>
  for each of the six moduli, and the panel does not depend on the simulator's output:
  changing it in the world leaves the panel as it is, and any two worlds give the same
  predictions.
\<close>

theorem rmt_predictions_constant:
  "rmt_bars (figure4_right_panel w) =
     [- (5 / 100), - (5 / 100), - (5 / 100), - (5 / 100), - (5 / 100), - (5 / 100)]
   \<and> length (rmt_bars (figure4_right_panel w)) = length (tick_labels (figure4_right_panel w))
   \<and> figure4_right_panel (w\<lparr>rmt_results := r1\<rparr>) = figure4_right_panel (w\<lparr>rmt_results := r2\<rparr>)
   \<and> rmt_bars (figure4_right_panel w1) = rmt_bars (figure4_right_panel w2)"
  by (simp add: figure4_right_panel_def rmt_predictions_def q_values_def numeral_eq_Suc)

end
